theory Spec2Isabelle
  imports Main "HOL-Library.Sublist"
begin

section \<open>Python text\<close>

text \<open>
  A Python \<open>str\<close> is a sequence of Unicode code points; a code point is modelled as a
  natural number, so \<open>length\<close> counts what Python's \<open>len\<close> counts. \<open>py\<close> reads a
  literal of the source.
\<close>

type_synonym str = "nat list"

definition py :: "string \<Rightarrow> str" where
  "py cs = map of_char cs"

text \<open>
  \<open>str.strip()\<close> without an argument removes the leading and the trailing characters
  for which \<open>str.isspace\<close> holds: U+0009..U+000D, U+001C..U+0020, U+0085, U+00A0,
  U+1680, U+2000..U+200A, U+2028, U+2029, U+202F, U+205F and U+3000.
\<close>

definition isspace :: "nat \<Rightarrow> bool" where
  "isspace c = ((9 \<le> c \<and> c \<le> 13) \<or> (28 \<le> c \<and> c \<le> 32) \<or> c = 133 \<or> c = 160
     \<or> c = 5760 \<or> (8192 \<le> c \<and> c \<le> 8202) \<or> c = 8232 \<or> c = 8233 \<or> c = 8239
     \<or> c = 8287 \<or> c = 12288)"

definition strip :: "str \<Rightarrow> str" where
  "strip s = rev (dropWhile isspace (rev (dropWhile isspace s)))"

text \<open>\<open>sub in s\<close> on strings: \<open>sub\<close> occurs in \<open>s\<close> as a contiguous run.\<close>

fun contains :: "str \<Rightarrow> str \<Rightarrow> bool" where
  "contains [] sub = (sub = [])"
| "contains (c # s) sub = (prefix sub (c # s) \<or> contains s sub)"

text \<open>The two literals the script looks for (line 18 of the source).\<close>

definition export_const_dynamic :: str where
  "export_const_dynamic = py ''export const dynamic''"

definition use_client :: str where
  \<open>use_client = py ''"use client"''\<close>

section \<open>Files as the text layer presents them\<close>

text \<open>
  \<open>f.readlines()\<close> on a file opened in text mode cuts the text after every newline
  (U+000A); the last line has no newline when the text does not end with one.
  \<open>f.writelines(lines)\<close> writes the strings one after the other and adds nothing
  between them.
\<close>

fun readlines :: "str \<Rightarrow> str list" where
  "readlines [] = []"
| "readlines (c # s) =
     (if c = 10 then [c] # readlines s
      else (case readlines s of [] \<Rightarrow> [[c]] | l # ls \<Rightarrow> (c # l) # ls))"

definition writelines :: "str list \<Rightarrow> str" where
  "writelines ls = concat ls"

text \<open>
  A file holds either text (what decoding its bytes as UTF-8 gives, newlines as the text
  layer presents them) or bytes that are not valid UTF-8, and may or may not be readable
  and writable by the process. A directory lists named entries. A path is the list of
  its components below the working directory.
\<close>

datatype data = Text str | Undecodable "nat list"

datatype node = File bool bool data | Dir "(str \<times> node) list"

type_synonym dir = "(str \<times> node) list"

type_synonym path = "str list"

type_synonym disk = "path \<Rightarrow> node option"

fun lookup :: "dir \<Rightarrow> path \<Rightarrow> node option" where
  "lookup es [] = None"
| "lookup es [x] = map_of es x"
| "lookup es (x # p) = (case map_of es x of Some (Dir sub) \<Rightarrow> lookup sub p | _ \<Rightarrow> None)"

text \<open>No directory lists a name twice.\<close>

fun names_distinct :: "dir \<Rightarrow> bool" where
  "names_distinct [] = True"
| "names_distinct ((x, File r w d) # es) = (x \<notin> set (map fst es) \<and> names_distinct es)"
| "names_distinct ((x, Dir sub) # es) =
     (x \<notin> set (map fst es) \<and> names_distinct sub \<and> names_distinct es)"

datatype error = FileNotFoundError | PermissionError | IsADirectoryError | UnicodeDecodeError

text \<open>
  \<open>with open(file, 'r', encoding='utf-8') as f: lines = f.readlines()\<close>: opening
  fails on a missing path, a directory or an unreadable file; reading fails on bytes
  that do not decode.
\<close>

definition read_lines :: "disk \<Rightarrow> path \<Rightarrow> error + str list" where
  "read_lines fs file =
     (case fs file of
        None \<Rightarrow> Inl FileNotFoundError
      | Some (Dir sub) \<Rightarrow> Inl IsADirectoryError
      | Some (File r w d) \<Rightarrow>
          if \<not> r then Inl PermissionError
          else (case d of Undecodable bs \<Rightarrow> Inl UnicodeDecodeError
                | Text t \<Rightarrow> Inr (readlines t)))"

text \<open>
  \<open>with open(file, 'w', encoding='utf-8') as f: f.writelines(lines)\<close>: opening fails
  on a directory or a file that is not writable; otherwise the file's text is replaced
  (mode \<open>'w'\<close> creates a path that does not exist; the script only writes a path it
  has just read). A write that fails half way (a full device) is not part of the model.
\<close>

definition write_lines :: "disk \<Rightarrow> path \<Rightarrow> str list \<Rightarrow> error + disk" where
  "write_lines fs file ls =
     (case fs file of
        None \<Rightarrow> Inr (fs(file \<mapsto> File True True (Text (writelines ls))))
      | Some (Dir sub) \<Rightarrow> Inl IsADirectoryError
      | Some (File r w d) \<Rightarrow>
          if \<not> w then Inl PermissionError
          else Inr (fs(file \<mapsto> File r w (Text (writelines ls)))))"

section \<open>The enumeration \<open>glob.glob('**/*.js', recursive=True)\<close>\<close>

text \<open>
  The standard library's \<open>glob\<close>, for this pattern: \<open>**\<close> yields the working directory
  and, through \<open>_rlistdir\<close>, every directory below it whose name does not start with a
  dot, parents before children; in each of them \<open>_glob1\<close> lists the entries, drops the
  names that start with a dot (the pattern does not) and keeps those that \<open>fnmatch\<close>
  matches against \<open>*.js\<close>. Matching is by code point, as \<open>os.path.normcase\<close> leaves
  names on POSIX.
\<close>

definition ishidden :: "str \<Rightarrow> bool" where
  "ishidden name = (case name of [] \<Rightarrow> False | c # cs \<Rightarrow> c = 46)"

definition fnmatch_js :: "str \<Rightarrow> bool" where
  "fnmatch_js name = suffix (py ''.js'') name"

fun rlistdir :: "dir \<Rightarrow> path list" where
  "rlistdir [] = []"
| "rlistdir ((x, File r w d) # es) = rlistdir es"
| "rlistdir ((x, Dir sub) # es) =
     (if ishidden x then [] else [x] # map ((#) x) (rlistdir sub)) @ rlistdir es"

definition listdir :: "dir \<Rightarrow> path \<Rightarrow> str list" where
  "listdir es d =
     (if d = [] then map fst es
      else (case lookup es d of Some (Dir sub) \<Rightarrow> map fst sub | _ \<Rightarrow> []))"

definition glob1 :: "dir \<Rightarrow> path \<Rightarrow> str list" where
  "glob1 es d = filter fnmatch_js (filter (\<lambda>x. \<not> ishidden x) (listdir es d))"

definition glob_js :: "dir \<Rightarrow> path list" where
  "glob_js es = concat (map (\<lambda>d. map (\<lambda>name. d @ [name]) (glob1 es d)) ([] # rlistdir es))"

section \<open>The script\<close>

text \<open>
  The console is the list of the \<open>print\<close> calls made: \<open>Fixed: {file}\<close> (line 25),
  \<open>Error processing {file}: {e}\<close> (line 28) and the empty line with
  \<open>Total files fixed: {count}\<close> after it (line 30).
\<close>

datatype event = Fixed path | Error_processing path error | Total_files_fixed nat

record state =
  disk :: disk
  stdout :: "event list"
  count :: nat

text \<open>
  The body of the \<open>try\<close> (lines 10 to 26): \<open>Inl e\<close> when it raises \<open>e\<close>. Every raise
  of the model comes before the first effect of the body, so the state at a raise is the
  state the body started in.
\<close>

definition try_block :: "state \<Rightarrow> path \<Rightarrow> error + state" where
  "try_block st file =
     (case read_lines (disk st) file of
        Inl e \<Rightarrow> Inl e
      | Inr lines \<Rightarrow>
          if 2 \<le> length lines then
            let line0 = strip (lines ! 0);
                line1 = strip (lines ! 1)
            in if contains line0 export_const_dynamic \<and> contains line1 use_client then
                 let lines' = lines[0 := lines ! 1, 1 := lines ! 0]
                 in (case write_lines (disk st) file lines' of
                       Inl e \<Rightarrow> Inl e
                     | Inr fs \<Rightarrow>
                         Inr (st\<lparr>disk := fs, stdout := stdout st @ [Fixed file],
                                 count := count st + 1\<rparr>))
               else Inr st
          else Inr st)"

text \<open>One turn of the \<open>for\<close> loop: the \<open>try\<close> with its \<open>except Exception\<close>.\<close>

definition step :: "state \<Rightarrow> path \<Rightarrow> state" where
  "step st file =
     (case try_block st file of
        Inl e \<Rightarrow> st\<lparr>stdout := stdout st @ [Error_processing file e]\<rparr>
      | Inr st' \<Rightarrow> st')"

definition process_files :: "state \<Rightarrow> path list \<Rightarrow> state" where
  "process_files st files = foldl step st files"

definition fix_use_client_directive :: "dir \<Rightarrow> state" where
  "fix_use_client_directive cwd =
     (let files = glob_js cwd;
          st = process_files \<lparr>disk = lookup cwd, stdout = [], count = 0\<rparr> files
      in st\<lparr>stdout := stdout st @ [Total_files_fixed (count st)]\<rparr>)"

text \<open>
  The entry point: \<open>os.chdir\<close> of the fixed path, then the procedure. The argument is
  what the fixed path leads to: nothing, a directory the process may not enter, or a
  directory it may.
\<close>

datatype root = Missing | Inaccessible dir | Accessible dir

definition os_chdir :: "root \<Rightarrow> error + dir" where
  "os_chdir r = (case r of Missing \<Rightarrow> Inl FileNotFoundError
                 | Inaccessible es \<Rightarrow> Inl PermissionError
                 | Accessible es \<Rightarrow> Inr es)"

definition files_under :: "root \<Rightarrow> disk" where
  "files_under r = (case r of Missing \<Rightarrow> (\<lambda>p. None)
                    | Inaccessible es \<Rightarrow> lookup es
                    | Accessible es \<Rightarrow> lookup es)"

record run =
  raised :: "error option"
  console :: "event list"
  disk_after :: disk

definition main :: "root \<Rightarrow> run" where
  "main r =
     (case os_chdir r of
        Inl e \<Rightarrow> \<lparr>raised = Some e, console = [], disk_after = files_under r\<rparr>
      | Inr cwd \<Rightarrow>
          let st = fix_use_client_directive cwd
          in \<lparr>raised = None, console = stdout st, disk_after = disk st\<rparr>)"

section \<open>What the specification says of one file\<close>

text \<open>
  The test of line 14 and line 18 together, and the three ways the specification lets
  the processing of one file end.
\<close>

definition needs_swap :: "str list \<Rightarrow> bool" where
  "needs_swap ls = (2 \<le> length ls \<and> contains (strip (ls ! 0)) export_const_dynamic
     \<and> contains (strip (ls ! 1)) use_client)"

datatype outcome = Repaired | Skipped | Failed error

definition outcome_of :: "node option \<Rightarrow> outcome" where
  "outcome_of n =
     (case n of
        None \<Rightarrow> Failed FileNotFoundError
      | Some (Dir sub) \<Rightarrow> Failed IsADirectoryError
      | Some (File r w d) \<Rightarrow>
          if \<not> r then Failed PermissionError
          else (case d of Undecodable bs \<Rightarrow> Failed UnicodeDecodeError
                | Text t \<Rightarrow>
                    if needs_swap (readlines t)
                    then (if w then Repaired else Failed PermissionError)
                    else Skipped))"

text \<open>
  What a repair leaves in place of a file: its lines with the first two exchanged,
  written back. \<open>report\<close> is the console line an outcome stands for.
\<close>

definition swap_first_two :: "str list \<Rightarrow> str list" where
  "swap_first_two ls = ls[0 := ls ! 1, 1 := ls ! 0]"

fun rewrite :: "node option \<Rightarrow> node option" where
  "rewrite (Some (File r w (Text t))) =
     Some (File r w (Text (writelines (swap_first_two (readlines t)))))"
| "rewrite n = n"

definition report :: "path \<Rightarrow> outcome \<Rightarrow> event list" where
  "report file oc = (case oc of Repaired \<Rightarrow> [Fixed file] | Skipped \<Rightarrow> []
                     | Failed e \<Rightarrow> [Error_processing file e])"

definition is_fixed :: "event \<Rightarrow> bool" where
  "is_fixed ev = (case ev of Fixed file \<Rightarrow> True | _ \<Rightarrow> False)"

definition repaired :: "disk \<Rightarrow> path \<Rightarrow> bool" where
  "repaired fs file = (outcome_of (fs file) = Repaired)"

text \<open>The first two lines of a file's text are the same string.\<close>

definition first_two_equal :: "node option \<Rightarrow> bool" where
  "first_two_equal n =
     (case n of Some (File r w (Text t)) \<Rightarrow> readlines t ! 0 = readlines t ! 1
      | _ \<Rightarrow> False)"

section \<open>Example inputs\<close>

text \<open>The two files of the specification's scenarios 1 and 2, and directories holding them.\<close>

definition scenario1 :: str where
  \<open>scenario1 =
     py ''"use client"\<newline>export const dynamic = "force-dynamic"\<newline>other code...\<newline>''\<close>

definition scenario2 :: str where
  \<open>scenario2 =
     py ''export const dynamic = "force-dynamic"\<newline>"use client"\<newline>other code...\<newline>''\<close>

definition page_js :: path where
  "page_js = [py ''page.js'']"

definition locked_js :: path where
  "locked_js = [py ''locked.js'']"

definition one_page :: "str \<Rightarrow> dir" where
  "one_page t = [(py ''page.js'', File True True (Text t))]"

definition locked_and_page :: dir where
  "locked_and_page =
     [(py ''locked.js'', File False True (Text scenario2)),
      (py ''page.js'', File True True (Text scenario2))]"

text \<open>
  More inputs: a two-line file whose second line has no newline, and what the script
  leaves of it; a file whose first two lines are the same string and hold both
  literals; a file with indented lines; a one-line file; a tree with three files that
  meet the test and two that do not; a tree whose only entries have dot-names; two
  different lines that both hold both literals.
\<close>

definition unterminated :: str where
  \<open>unterminated = py ''export const dynamic = "force-dynamic"\<newline>"use client"''\<close>

definition merged :: str where
  \<open>merged = py ''"use client"export const dynamic = "force-dynamic"\<newline>''\<close>

definition twins :: str where
  \<open>twins = py ''"use client"; export const dynamic = 1\<newline>"use client"; export const dynamic = 1\<newline>''\<close>

definition indented :: str where
  \<open>indented = py ''  export const dynamic = "auto"\<newline>  "use client";\<newline>''\<close>

definition one_line :: str where
  \<open>one_line = py ''module.exports = {}\<newline>''\<close>

definition five_files :: dir where
  "five_files =
     [(py ''index.js'', File True True (Text scenario2)),
      (py ''util.js'', File True True (Text one_line)),
      (py ''app'', Dir
        [(py ''page.js'', File True True (Text scenario2)),
         (py ''layout.js'', File True True (Text scenario1)),
         (py ''admin'', Dir [(py ''page.js'', File True True (Text indented))])])]"

definition dot_named :: dir where
  "dot_named =
     [(py ''.eslintrc.js'', File True True (Text scenario2)),
      (py ''.cache'', Dir [(py ''page.js'', File True True (Text scenario2))])]"

definition both_markers :: str where
  \<open>both_markers = py ''"use client"; export const dynamic = 1 // a\<newline>"use client"; export const dynamic = 1 // b\<newline>''\<close>

definition both_markers_swapped :: str where
  \<open>both_markers_swapped = py ''"use client"; export const dynamic = 1 // b\<newline>"use client"; export const dynamic = 1 // a\<newline>''\<close>

section \<open>Well-formed lines\<close>

text \<open>
  What \<open>readlines\<close> returns: no line is empty, a newline stands only at the end of a
  line, and every line but the last ends with one.
\<close>

fun lines_ok :: "str list \<Rightarrow> bool" where
  "lines_ok [] = True"
| "lines_ok [l] = (l \<noteq> [] \<and> 10 \<notin> set (butlast l))"
| "lines_ok (l # ls) = (l \<noteq> [] \<and> 10 \<notin> set (butlast l) \<and> last l = 10 \<and> lines_ok ls)"

section \<open>Substrings and stripping\<close>

lemma contains_iff: "contains s sub \<longleftrightarrow> (\<exists>ps ss. s = ps @ sub @ ss)"
proof (induction s)
  case Nil
  then show ?case by auto
next
  case (Cons c s)
  show ?case
  proof
    assume "contains (c # s) sub"
    then consider "prefix sub (c # s)" | "contains s sub" by auto
    then show "\<exists>ps ss. c # s = ps @ sub @ ss"
    proof cases
      case 1
      then obtain ss where "c # s = sub @ ss" by (auto simp: prefix_def)
      then have "c # s = [] @ sub @ ss" by simp
      then show ?thesis by blast
    next
      case 2
      with Cons.IH obtain ps ss where "s = ps @ sub @ ss" by blast
      then have "c # s = (c # ps) @ sub @ ss" by simp
      then show ?thesis by blast
    qed
  next
    assume "\<exists>ps ss. c # s = ps @ sub @ ss"
    then obtain ps ss where e: "c # s = ps @ sub @ ss" by blast
    show "contains (c # s) sub"
    proof (cases ps)
      case Nil
      with e have "prefix sub (c # s)" by (simp add: prefix_def)
      then show ?thesis by simp
    next
      case (Cons a ps')
      with e have "s = ps' @ sub @ ss" by simp
      with Cons.IH have "contains s sub" by blast
      then show ?thesis by simp
    qed
  qed
qed

lemma contains_rev: "contains (rev s) (rev sub) = contains s sub"
proof -
  have "(\<exists>ps ss. rev s = ps @ rev sub @ ss) \<longleftrightarrow> (\<exists>ps ss. s = ps @ sub @ ss)"
  proof
    assume "\<exists>ps ss. rev s = ps @ rev sub @ ss"
    then obtain ps ss where "rev s = ps @ rev sub @ ss" by blast
    then have "rev (rev s) = rev (ps @ rev sub @ ss)" by simp
    then have "s = rev ss @ sub @ rev ps" by simp
    then show "\<exists>ps ss. s = ps @ sub @ ss" by blast
  next
    assume "\<exists>ps ss. s = ps @ sub @ ss"
    then obtain ps ss where "s = ps @ sub @ ss" by blast
    then have "rev s = rev ss @ rev sub @ rev ps" by simp
    then show "\<exists>ps ss. rev s = ps @ rev sub @ ss" by blast
  qed
  then show ?thesis by (simp add: contains_iff)
qed

text \<open>Dropping leading characters that the substring does not start with loses no occurrence.\<close>

lemma contains_dropWhile:
  "sub \<noteq> [] \<Longrightarrow> \<not> P (hd sub) \<Longrightarrow> contains (dropWhile P s) sub = contains s sub"
proof (induction s)
  case Nil
  then show ?case by simp
next
  case (Cons c s)
  show ?case
  proof (cases "P c")
    case True
    with Cons.prems have "\<not> prefix sub (c # s)"
      by (cases sub) auto
    with True Cons show ?thesis by simp
  next
    case False
    then show ?thesis by simp
  qed
qed

lemma contains_strip:
  assumes "sub \<noteq> []" "\<not> isspace (hd sub)" "\<not> isspace (last sub)"
  shows "contains (strip s) sub = contains s sub"
proof -
  have r: "rev sub \<noteq> []" "\<not> isspace (hd (rev sub))"
    using assms by (simp_all add: hd_rev)
  have "contains (strip s) sub = contains (dropWhile isspace (rev (dropWhile isspace s))) (rev sub)"
    unfolding strip_def by (metis contains_rev rev_rev_ident)
  also have "\<dots> = contains (rev (dropWhile isspace s)) (rev sub)"
    using r by (rule contains_dropWhile)
  also have "\<dots> = contains (dropWhile isspace s) sub" by (rule contains_rev)
  also have "\<dots> = contains s sub" using assms(1,2) by (rule contains_dropWhile)
  finally show ?thesis .
qed

lemma export_const_dynamic_codes:
  "export_const_dynamic =
     [101, 120, 112, 111, 114, 116, 32, 99, 111, 110, 115, 116, 32, 100, 121, 110, 97, 109, 105, 99]"
  by (simp add: export_const_dynamic_def py_def)

lemma use_client_codes:
  "use_client = [34, 117, 115, 101, 32, 99, 108, 105, 101, 110, 116, 34]"
  by (simp add: use_client_def py_def)

lemma marker_ends:
  "export_const_dynamic \<noteq> []" "\<not> isspace (hd export_const_dynamic)"
  "\<not> isspace (last export_const_dynamic)"
  "use_client \<noteq> []" "\<not> isspace (hd use_client)" "\<not> isspace (last use_client)"
  by (simp_all add: export_const_dynamic_codes use_client_codes isspace_def)

lemma contains_strip_markers [simp]:
  "contains (strip s) export_const_dynamic = contains s export_const_dynamic"
  "contains (strip s) use_client = contains s use_client"
  by (simp_all add: contains_strip marker_ends)

text \<open>
  C10. The test of line 18 gives the same answer on the raw first two lines as on the
  stripped ones: for all strings \<open>l0\<close> and \<open>l1\<close>, the stripped \<open>l0\<close> contains
  \<open>export const dynamic\<close> and the stripped \<open>l1\<close> contains \<open>"use client"\<close> exactly when
  \<open>l0\<close> and \<open>l1\<close> themselves do, since neither literal starts or ends with a character
  that \<open>strip\<close> removes.
\<close>

theorem match_invariant_under_strip:
  "(contains (strip l0) export_const_dynamic \<and> contains (strip l1) use_client)
   = (contains l0 export_const_dynamic \<and> contains l1 use_client)"
  by (simp add: contains_strip marker_ends)

section \<open>One turn of the loop, and the loop\<close>

lemma step_Repaired:
  "outcome_of (disk st file) = Repaired \<Longrightarrow>
   step st file = st\<lparr>disk := (disk st)(file := rewrite (disk st file)),
                      stdout := stdout st @ [Fixed file], count := count st + 1\<rparr>"
  by (auto simp: step_def try_block_def read_lines_def write_lines_def outcome_of_def
      needs_swap_def swap_first_two_def Let_def
      split: option.splits node.splits data.splits if_splits)

lemma step_Skipped: "outcome_of (disk st file) = Skipped \<Longrightarrow> step st file = st"
  by (auto simp: step_def try_block_def read_lines_def write_lines_def outcome_of_def
      needs_swap_def Let_def
      split: option.splits node.splits data.splits if_splits)

lemma step_Failed:
  "outcome_of (disk st file) = Failed e \<Longrightarrow>
   step st file = st\<lparr>stdout := stdout st @ [Error_processing file e]\<rparr>"
  by (auto simp: step_def try_block_def read_lines_def write_lines_def outcome_of_def
      needs_swap_def Let_def
      split: option.splits node.splits data.splits if_splits)

lemma try_block_Failed:
  "try_block st file = Inl e \<longleftrightarrow> outcome_of (disk st file) = Failed e"
  by (auto simp: try_block_def read_lines_def write_lines_def outcome_of_def
      needs_swap_def Let_def
      split: option.splits node.splits data.splits if_splits)

lemma step_cases:
  "step st file =
     (case outcome_of (disk st file) of
        Repaired \<Rightarrow> st\<lparr>disk := (disk st)(file := rewrite (disk st file)),
                      stdout := stdout st @ [Fixed file], count := count st + 1\<rparr>
      | Skipped \<Rightarrow> st
      | Failed e \<Rightarrow> st\<lparr>stdout := stdout st @ [Error_processing file e]\<rparr>)"
  by (cases "outcome_of (disk st file)") (simp_all add: step_Repaired step_Skipped step_Failed)

lemma disk_step_other: "q \<noteq> file \<Longrightarrow> disk (step st file) q = disk st q"
  by (cases "outcome_of (disk st file)") (simp_all add: step_cases)

lemma disk_step_same:
  "disk (step st file) file = (if repaired (disk st) file then rewrite (disk st file) else disk st file)"
  by (cases "outcome_of (disk st file)") (simp_all add: step_cases repaired_def)

lemma stdout_step: "stdout (step st file) = stdout st @ report file (outcome_of (disk st file))"
  by (cases "outcome_of (disk st file)") (simp_all add: step_cases report_def)

lemma count_step:
  "count (step st file) = count st + (if repaired (disk st) file then 1 else 0)"
  by (cases "outcome_of (disk st file)") (simp_all add: step_cases repaired_def)

lemma process_files_Nil [simp]: "process_files st [] = st"
  by (simp add: process_files_def)

lemma process_files_Cons [simp]: "process_files st (f # fs) = process_files (step st f) fs"
  by (simp add: process_files_def)

lemma process_files_append: "process_files st (xs @ ys) = process_files (process_files st xs) ys"
  by (simp add: process_files_def)

text \<open>A file the loop would not repair keeps its content whatever the loop runs over.\<close>

lemma disk_step_not_repaired:
  "\<not> repaired (disk st) p \<Longrightarrow> disk (step st file) p = disk st p"
  by (cases "p = file") (simp_all add: disk_step_same disk_step_other)

lemma disk_process_files_not_repaired:
  "\<not> repaired (disk st) p \<Longrightarrow> disk (process_files st files) p = disk st p"
proof (induction files arbitrary: st)
  case Nil
  then show ?case by simp
next
  case (Cons f files)
  have same: "disk (step st f) p = disk st p"
    using Cons.prems by (rule disk_step_not_repaired)
  then have "\<not> repaired (disk (step st f)) p"
    using Cons.prems by (simp add: repaired_def)
  then have "disk (process_files (step st f) files) p = disk (step st f) p"
    by (rule Cons.IH)
  with same show ?case by simp
qed

lemma disk_process_files_outside:
  "p \<notin> set files \<Longrightarrow> disk (process_files st files) p = disk st p"
  by (induction files arbitrary: st) (simp_all add: disk_step_other)

text \<open>Over a list without repetition every file meets the disk as it was at the start.\<close>

lemma disk_process_files_distinct:
  "distinct files \<Longrightarrow> disk (process_files st files) p =
     (if p \<in> set files \<and> repaired (disk st) p then rewrite (disk st p) else disk st p)"
proof (induction files arbitrary: st)
  case Nil
  then show ?case by simp
next
  case (Cons f files)
  then have d: "distinct files" and nf: "f \<notin> set files" by simp_all
  show ?case
  proof (cases "p = f")
    case True
    with nf have "disk (process_files (step st f) files) p = disk (step st f) p"
      by (simp add: disk_process_files_outside)
    with True show ?thesis by (simp add: disk_step_same)
  next
    case False
    then have "disk (step st f) p = disk st p" by (simp add: disk_step_other)
    with False show ?thesis
      by (simp add: Cons.IH[OF d] repaired_def)
  qed
qed

lemma stdout_process_files_distinct:
  "distinct files \<Longrightarrow> stdout (process_files st files) =
     stdout st @ concat (map (\<lambda>p. report p (outcome_of (disk st p))) files)"
proof (induction files arbitrary: st)
  case Nil
  then show ?case by simp
next
  case (Cons f files)
  then have d: "distinct files" and nf: "f \<notin> set files" by simp_all
  have later: "disk (step st f) x = disk st x" if "x \<in> set files" for x
    using that nf disk_step_other[of x f st] by blast
  have m: "map (\<lambda>p. report p (outcome_of (disk (step st f) p))) files =
        map (\<lambda>p. report p (outcome_of (disk st p))) files"
    by (intro map_cong refl) (simp add: later)
  show ?case
    by (simp add: Cons.IH[OF d] stdout_step m)
qed

lemma count_process_files_distinct:
  "distinct files \<Longrightarrow>
   count (process_files st files) = count st + length (filter (repaired (disk st)) files)"
proof (induction files arbitrary: st)
  case Nil
  then show ?case by simp
next
  case (Cons f files)
  then have d: "distinct files" and nf: "f \<notin> set files" by simp_all
  have later: "disk (step st f) x = disk st x" if "x \<in> set files" for x
    using that nf disk_step_other[of x f st] by blast
  have m: "filter (repaired (disk (step st f))) files = filter (repaired (disk st)) files"
    by (intro filter_cong refl) (simp add: later repaired_def)
  show ?case
    by (simp add: Cons.IH[OF d] count_step m)
qed

text \<open>What is already on the console plays no part in a turn of the loop.\<close>

lemma step_console_prefix:
  "step (st\<lparr>stdout := xs @ stdout st\<rparr>) file = (step st file)\<lparr>stdout := xs @ stdout (step st file)\<rparr>"
  by (cases "outcome_of (disk st file)") (simp_all add: step_cases)

lemma process_files_console_prefix:
  "process_files (st\<lparr>stdout := xs @ stdout st\<rparr>) files =
     (process_files st files)\<lparr>stdout := xs @ stdout (process_files st files)\<rparr>"
proof (induction files arbitrary: st)
  case Nil
  then show ?case by simp
next
  case (Cons f files)
  show ?case
    by (simp add: step_console_prefix Cons.IH)
qed

text \<open>
  C3. A file the run skips is left as it was: for every readable text file under the
  working directory that has fewer than two lines, or whose stripped line 0 does not
  contain \<open>export const dynamic\<close>, or whose stripped line 1 does not contain
  \<open>"use client"\<close>, the content after the run is the content before it.
\<close>

theorem skipped_file_untouched:
  assumes "lookup cwd file = Some (File r w (Text t))"
    and "length (readlines t) < 2
         \<or> \<not> contains (strip (readlines t ! 0)) export_const_dynamic
         \<or> \<not> contains (strip (readlines t ! 1)) use_client"
  shows "disk_after (main (Accessible cwd)) file = Some (File r w (Text t))"
proof -
  have "\<not> needs_swap (readlines t)"
    using assms(2) by (auto simp: needs_swap_def)
  then have "\<not> repaired (lookup cwd) file"
    using assms(1) by (simp add: repaired_def outcome_of_def)
  then have "disk (process_files \<lparr>disk = lookup cwd, stdout = [], count = 0\<rparr> (glob_js cwd)) file
      = lookup cwd file"
    using disk_process_files_not_repaired[of "\<lparr>disk = lookup cwd, stdout = [], count = 0\<rparr>" "file"]
    by simp
  then show ?thesis
    using assms(1) by (simp add: main_def os_chdir_def fix_use_client_directive_def Let_def)
qed

theorem skipped_file_untouched_witness:
  "lookup (one_page scenario1) page_js = Some (File True True (Text scenario1))
   \<and> \<not> contains (strip (readlines scenario1 ! 0)) export_const_dynamic
   \<and> disk_after (main (Accessible (one_page scenario1))) page_js
       = Some (File True True (Text scenario1))"
proof -
  have h1: "lookup (one_page scenario1) page_js = Some (File True True (Text scenario1))"
    by (simp add: one_page_def page_js_def)
  have h2: "\<not> contains (strip (readlines scenario1 ! 0)) export_const_dynamic"
    by (simp add: scenario1_def py_def export_const_dynamic_codes strip_def isspace_def)
  show ?thesis
    using skipped_file_untouched[OF h1 disjI2[OF disjI1[OF h2]]] h1 h2 by simp
qed


text \<open>
  C5. An exception raised while one file is processed is caught and logged with the
  file's path and the error, and the loop goes on: when the body of the \<open>try\<close> raises
  \<open>e\<close> on \<open>file\<close>, the files after it are processed as if \<open>file\<close> had not been in the
  list (same disk, same counter), and the console is the same but for the one line
  \<open>Error processing file: e\<close> at the place of \<open>file\<close>.
\<close>

theorem error_logged_and_loop_continues:
  assumes "try_block (process_files st before) file = Inl e"
  shows "disk (process_files st (before @ file # rest)) = disk (process_files st (before @ rest))
    \<and> count (process_files st (before @ file # rest)) = count (process_files st (before @ rest))
    \<and> stdout (process_files st (before @ file # rest)) =
        stdout (process_files st before) @ Error_processing file e
          # drop (length (stdout (process_files st before))) (stdout (process_files st (before @ rest)))"
proof -
  define a where "a = process_files st before"
  define a0 where "a0 = a\<lparr>stdout := []\<rparr>"
  define r where "r = process_files a0 rest"
  have f: "outcome_of (disk a file) = Failed e"
    using assms by (simp add: a_def try_block_Failed)
  have a: "a = a0\<lparr>stdout := stdout a @ stdout a0\<rparr>" by (simp add: a0_def)
  have s: "step a file = a0\<lparr>stdout := (stdout a @ [Error_processing file e]) @ stdout a0\<rparr>"
    using f by (simp add: step_Failed a0_def)
  have c: "process_files st (before @ rest) = r\<lparr>stdout := stdout a @ stdout r\<rparr>"
    unfolding process_files_append a_def[symmetric] r_def
    by (subst a) (rule process_files_console_prefix)
  have b: "process_files st (before @ file # rest)
      = r\<lparr>stdout := (stdout a @ [Error_processing file e]) @ stdout r\<rparr>"
    unfolding process_files_append a_def[symmetric] r_def process_files_Cons s
    by (rule process_files_console_prefix)
  show ?thesis
    unfolding b c a_def[symmetric] by simp
qed

theorem error_logged_and_loop_continues_witness:
  "try_block (process_files \<lparr>disk = lookup locked_and_page, stdout = [], count = 0\<rparr> []) locked_js
     = Inl PermissionError
   \<and> count (process_files \<lparr>disk = lookup locked_and_page, stdout = [], count = 0\<rparr>
        ([] @ locked_js # [page_js])) = 1
   \<and> stdout (process_files \<lparr>disk = lookup locked_and_page, stdout = [], count = 0\<rparr>
        ([] @ locked_js # [page_js])) = [Error_processing locked_js PermissionError, Fixed page_js]"
proof -
  let ?st = "\<lparr>disk = lookup locked_and_page, stdout = [], count = 0\<rparr>"
  have h: "try_block (process_files ?st []) locked_js = Inl PermissionError"
    by (simp add: try_block_def read_lines_def locked_and_page_def locked_js_def py_def)
  have r: "repaired (lookup locked_and_page) page_js"
    by (simp add: repaired_def outcome_of_def needs_swap_def locked_and_page_def page_js_def
        scenario2_def py_def export_const_dynamic_codes use_client_codes strip_def isspace_def)
  have p: "process_files ?st ([] @ [page_js])
      = ?st\<lparr>disk := (lookup locked_and_page)(page_js := rewrite (lookup locked_and_page page_js)),
             stdout := [Fixed page_js], count := 1\<rparr>"
    using r by (simp add: step_Repaired repaired_def)
  show ?thesis
    using error_logged_and_loop_continues[OF h, of "[page_js]"] h p by simp
qed


text \<open>
  C6. When the root directory is missing or may not be entered, \<open>os.chdir\<close> raises before
  the procedure is called: the error propagates, nothing is printed (no summary line),
  and every file is as it was.
\<close>

theorem missing_root_aborts:
  assumes "r = Missing \<or> r = Inaccessible es"
  shows "raised (main r) \<noteq> None \<and> console (main r) = [] \<and> disk_after (main r) = files_under r"
  using assms by (auto simp: main_def os_chdir_def)

theorem missing_root_aborts_witness:
  "raised (main Missing) \<noteq> None \<and> console (main Missing) = []
   \<and> disk_after (main Missing) = files_under Missing
   \<and> raised (main (Inaccessible (one_page scenario2))) \<noteq> None
   \<and> console (main (Inaccessible (one_page scenario2))) = []
   \<and> disk_after (main (Inaccessible (one_page scenario2))) page_js
       = Some (File True True (Text scenario2))"
  using missing_root_aborts[of Missing "[]"]
    missing_root_aborts[of "Inaccessible (one_page scenario2)" "one_page scenario2"]
  by (simp add: files_under_def one_page_def page_js_def)

section \<open>Reading back what was written\<close>

lemma concat_readlines: "concat (readlines t) = t"
  by (induction t) (auto split: list.splits)

lemma readlines_eq_Nil [simp]: "readlines t = [] \<longleftrightarrow> t = []"
  by (cases t) (auto split: list.splits)

lemma lines_ok_readlines: "lines_ok (readlines t)"
proof (induction t)
  case Nil
  then show ?case by simp
next
  case (Cons c t)
  show ?case
  proof (cases "c = 10")
    case True
    with Cons show ?thesis by (cases "readlines t") simp_all
  next
    case False
    show ?thesis
    proof (cases "readlines t")
      case Nil
      with False show ?thesis by simp
    next
      case (Cons l ls)
      with Cons.IH False show ?thesis
        by (cases ls) (auto split: if_splits)
    qed
  qed
qed

lemma readlines_terminated: "10 \<notin> set a \<Longrightarrow> readlines (a @ 10 # s) = (a @ [10]) # readlines s"
  by (induction a) auto

lemma readlines_unterminated: "10 \<notin> set a \<Longrightarrow> a \<noteq> [] \<Longrightarrow> readlines a = [a]"
proof (induction a)
  case Nil
  then show ?case by simp
next
  case (Cons c a)
  then show ?case by (cases "a = []") auto
qed

lemma readlines_concat: "lines_ok ls \<Longrightarrow> readlines (concat ls) = ls"
proof (induction ls rule: lines_ok.induct)
  case 1
  then show ?case by simp
next
  case (2 l)
  then have l: "l = butlast l @ [last l]" and nb: "10 \<notin> set (butlast l)" by simp_all
  show ?case
  proof (cases "last l = 10")
    case True
    have "readlines (butlast l @ 10 # []) = (butlast l @ [10]) # readlines []"
      using nb by (rule readlines_terminated)
    with l True show ?thesis by simp
  next
    case False
    with l nb have "10 \<notin> set l" by (metis Un_iff empty_iff empty_set set_ConsD set_append)
    with 2 show ?thesis by (simp add: readlines_unterminated)
  qed
next
  case (3 l m ms)
  define b where "b = butlast l"
  have l: "l = b @ [10]" and nb: "10 \<notin> set b"
    using 3(2) unfolding b_def by (simp_all, metis append_butlast_last_id)
  have "readlines (b @ 10 # concat (m # ms)) = (b @ [10]) # readlines (concat (m # ms))"
    using nb by (rule readlines_terminated)
  moreover have "readlines (concat (m # ms)) = m # ms"
    using 3 by simp
  ultimately show ?case by (simp add: l)
qed

lemma swap_first_two_Cons [simp]: "swap_first_two (l0 # l1 # rest) = l1 # l0 # rest"
  by (simp add: swap_first_two_def)

lemma length_swap_first_two [simp]: "length (swap_first_two ls) = length ls"
  by (simp add: swap_first_two_def)

lemma two_lines: "2 \<le> length ls \<Longrightarrow> \<exists>l0 l1 rest. ls = l0 # l1 # rest"
  by (cases ls; cases "tl ls") auto

lemma lines_ok_swap:
  assumes "lines_ok (l0 # l1 # rest)" and "last l1 = 10"
  shows "lines_ok (l1 # l0 # rest)"
  using assms by (cases rest) auto

text \<open>
  When the second line ends with a newline, reading the rewritten text gives the old
  lines with the first two exchanged.
\<close>

lemma readlines_after_swap:
  assumes "2 \<le> length (readlines t)" and "last (readlines t ! 1) = 10"
  shows "readlines (writelines (swap_first_two (readlines t))) = swap_first_two (readlines t)"
proof -
  obtain l0 l1 rest where ls: "readlines t = l0 # l1 # rest"
    using two_lines[OF assms(1)] by blast
  have "lines_ok (l0 # l1 # rest)"
    using lines_ok_readlines[of t] by (simp add: ls)
  moreover have "last l1 = 10" using assms(2) by (simp add: ls)
  ultimately have "lines_ok (l1 # l0 # rest)" by (rule lines_ok_swap)
  then have "readlines (concat (l1 # l0 # rest)) = l1 # l0 # rest"
    by (rule readlines_concat)
  then show ?thesis by (simp add: ls writelines_def)
qed

lemma first_newline_unique:
  "10 \<notin> set a \<Longrightarrow> 10 \<notin> set b \<Longrightarrow> a @ 10 # x = b @ 10 # y \<Longrightarrow> a = b"
proof (induction a arbitrary: b)
  case Nil
  then show ?case by (cases b) auto
next
  case (Cons c a)
  then show ?case by (cases b) auto
qed

lemma lines_commute:
  assumes "lines_ok (l0 # l1 # rest)" and "l1 @ l0 = l0 @ l1"
  shows "l0 = l1"
proof -
  define a where "a = butlast l0"
  have l0: "l0 = a @ [10]" and na: "10 \<notin> set a"
    using assms(1) unfolding a_def by (simp_all, metis append_butlast_last_id)
  define b where "b = butlast l1"
  have ok1: "l1 \<noteq> []" "10 \<notin> set b"
    using assms(1) unfolding b_def by (cases rest; simp)+
  then have l1: "l1 = b @ [last l1]" by (simp add: b_def)
  show ?thesis
  proof (cases "last l1 = 10")
    case True
    with l1 have l1': "l1 = b @ [10]" by simp
    have "l0 @ l1 = a @ 10 # l1" by (subst l0) simp
    moreover have "l1 @ l0 = b @ 10 # l0" by (subst l1') simp
    ultimately have "a @ 10 # l1 = b @ 10 # l0" using assms(2) by simp
    then have "a = b" using na ok1(2) by (metis first_newline_unique)
    then show ?thesis using l0 l1' by simp
  next
    case False
    have "last (l1 @ l0) = 10" by (subst l0) simp
    moreover have "last (l0 @ l1) = last l1" using ok1(1) by simp
    ultimately show ?thesis using assms(2) False by simp
  qed
qed

lemma concat_swap_iff:
  assumes "lines_ok (l0 # l1 # rest)"
  shows "concat (l1 # l0 # rest) = concat (l0 # l1 # rest) \<longleftrightarrow> l0 = l1"
proof
  assume "concat (l1 # l0 # rest) = concat (l0 # l1 # rest)"
  then have "l1 @ l0 = l0 @ l1" by simp
  with assms show "l0 = l1" by (rule lines_commute)
next
  assume "l0 = l1"
  then show "concat (l1 # l0 # rest) = concat (l0 # l1 # rest)" by simp
qed

lemma rewrite_same_iff:
  assumes "2 \<le> length (readlines t)"
  shows "writelines (swap_first_two (readlines t)) = t \<longleftrightarrow> readlines t ! 0 = readlines t ! 1"
proof -
  obtain l0 l1 rest where ls: "readlines t = l0 # l1 # rest"
    using two_lines[OF assms] by blast
  have ok: "lines_ok (l0 # l1 # rest)"
    using lines_ok_readlines[of t] by (simp add: ls)
  have "writelines (swap_first_two (readlines t)) = t
      \<longleftrightarrow> writelines (swap_first_two (readlines t)) = concat (readlines t)"
    by (simp only: concat_readlines)
  also have "\<dots> \<longleftrightarrow> concat (l1 # l0 # rest) = concat (l0 # l1 # rest)"
    by (simp only: ls swap_first_two_Cons writelines_def)
  also have "\<dots> \<longleftrightarrow> l0 = l1"
    using ok by (rule concat_swap_iff)
  also have "\<dots> \<longleftrightarrow> readlines t ! 0 = readlines t ! 1"
    by (simp add: ls)
  finally show ?thesis .
qed

lemma rewrite_changes_iff:
  "repaired fs p \<Longrightarrow> rewrite (fs p) = fs p \<longleftrightarrow> first_two_equal (fs p)"
  by (auto simp: repaired_def outcome_of_def first_two_equal_def needs_swap_def rewrite_same_iff
      split: option.splits node.splits data.splits if_splits)

section \<open>The enumeration has no repetition and misses no visible entry\<close>

lemma names_distinct_fst: "names_distinct es \<Longrightarrow> distinct (map fst es)"
  by (induction es rule: names_distinct.induct) auto

lemma names_distinct_sub: "names_distinct es \<Longrightarrow> (x, Dir sub) \<in> set es \<Longrightarrow> names_distinct sub"
  by (induction es rule: names_distinct.induct) auto

lemma lookup_Cons:
  "p \<noteq> [] \<Longrightarrow> lookup es (x # p) = (case map_of es x of Some (Dir sub) \<Rightarrow> lookup sub p | _ \<Rightarrow> None)"
  by (cases p) auto

lemma names_distinct_lookup:
  "names_distinct es \<Longrightarrow> lookup es p = Some (Dir sub) \<Longrightarrow> names_distinct sub"
proof (induction es p rule: lookup.induct)
  case (1 es)
  then show ?case by simp
next
  case (2 es x)
  then have "(x, Dir sub) \<in> set es" by (simp add: map_of_SomeD)
  with 2 show ?case by (blast intro: names_distinct_sub)
next
  case (3 es x v va)
  from 3(3) obtain s1 where m: "map_of es x = Some (Dir s1)" and l: "lookup s1 (v # va) = Some (Dir sub)"
    by (auto split: option.splits node.splits)
  from m have "(x, Dir s1) \<in> set es" by (rule map_of_SomeD)
  with 3(2) have "names_distinct s1" by (rule names_distinct_sub)
  with 3(1) m l show ?case by simp
qed

lemma rlistdir_nonempty: "[] \<notin> set (rlistdir es)"
  by (induction es rule: rlistdir.induct) auto

lemma hd_rlistdir: "p \<in> set (rlistdir es) \<Longrightarrow> hd p \<in> set (map fst es)"
  by (induction es rule: rlistdir.induct) (auto split: if_splits)

lemma distinct_rlistdir: "names_distinct es \<Longrightarrow> distinct (rlistdir es)"
proof (induction es rule: rlistdir.induct)
  case 1
  then show ?case by simp
next
  case (2 x r w d es)
  then show ?case by simp
next
  case (3 x sub es)
  then have nx: "x \<notin> set (map fst es)" and de: "distinct (rlistdir es)"
    by simp_all
  show ?case
  proof (cases "ishidden x")
    case True
    with de show ?thesis by simp
  next
    case False
    with 3 have ds: "distinct (rlistdir sub)" by simp
    have sep: "p \<notin> set (rlistdir es)" if "hd p = x" for p
      using that nx hd_rlistdir[of p es] by blast
    have "distinct ([x] # map ((#) x) (rlistdir sub))"
      using ds rlistdir_nonempty[of sub] by (auto simp: distinct_map)
    moreover have "set ([x] # map ((#) x) (rlistdir sub)) \<inter> set (rlistdir es) = {}"
      using sep by auto
    ultimately show ?thesis using de False by auto
  qed
qed

lemma distinct_listdir: "names_distinct es \<Longrightarrow> distinct (listdir es d)"
  by (auto simp: listdir_def names_distinct_fst split: option.splits node.splits
      dest: names_distinct_lookup)

lemma distinct_glob1: "names_distinct es \<Longrightarrow> distinct (glob1 es d)"
  by (simp add: glob1_def distinct_listdir)

lemma distinct_paths:
  "distinct ds \<Longrightarrow> (\<And>d. d \<in> set ds \<Longrightarrow> distinct (g d)) \<Longrightarrow>
   distinct (concat (map (\<lambda>d. map (\<lambda>name. d @ [name]) (g d)) ds))"
proof (induction ds)
  case Nil
  then show ?case by simp
next
  case (Cons d ds)
  have "distinct (map (\<lambda>name. d @ [name]) (g d))"
    using Cons.prems(2)[of d] by (simp add: distinct_map inj_on_def)
  moreover have "distinct (concat (map (\<lambda>d. map (\<lambda>name. d @ [name]) (g d)) ds))"
    using Cons by simp
  moreover have "set (map (\<lambda>name. d @ [name]) (g d))
      \<inter> set (concat (map (\<lambda>d. map (\<lambda>name. d @ [name]) (g d)) ds)) = {}"
    using Cons.prems(1) by auto
  ultimately show ?case by simp
qed

lemma distinct_glob_js: "names_distinct es \<Longrightarrow> distinct (glob_js es)"
  unfolding glob_js_def
  by (rule distinct_paths) (simp_all add: distinct_rlistdir rlistdir_nonempty distinct_glob1)

text \<open>Every directory below the working directory with no dot-name on its path is visited.\<close>

lemma rlistdir_entry:
  "(x, Dir sub) \<in> set es \<Longrightarrow> \<not> ishidden x \<Longrightarrow>
   [x] \<in> set (rlistdir es) \<and> (\<forall>q \<in> set (rlistdir sub). x # q \<in> set (rlistdir es))"
  by (induction es rule: rlistdir.induct) auto

lemma rlistdir_lookup:
  "list_all (\<lambda>x. \<not> ishidden x) d \<Longrightarrow> lookup es d = Some (Dir sub) \<Longrightarrow> d \<in> set (rlistdir es)"
proof (induction es d rule: lookup.induct)
  case (1 es)
  then show ?case by simp
next
  case (2 es x)
  then have "(x, Dir sub) \<in> set es" by (simp add: map_of_SomeD)
  with 2 show ?case by (simp add: rlistdir_entry)
next
  case (3 es x v va)
  from 3(3) obtain s1 where m: "map_of es x = Some (Dir s1)" and l: "lookup s1 (v # va) = Some (Dir sub)"
    by (auto split: option.splits node.splits)
  from m have e: "(x, Dir s1) \<in> set es" by (rule map_of_SomeD)
  have "v # va \<in> set (rlistdir s1)"
    using 3(1)[OF m refl] 3(2) l by simp
  with e 3(2) show ?case using rlistdir_entry[of x s1 es] by simp
qed

lemma lookup_snoc:
  "d \<noteq> [] \<Longrightarrow> lookup es (d @ [name]) = Some n \<Longrightarrow>
   \<exists>sub. lookup es d = Some (Dir sub) \<and> map_of sub name = Some n"
proof (induction es d rule: lookup.induct)
  case (1 es)
  then show ?case by simp
next
  case (2 es x)
  then show ?case by (auto split: option.splits node.splits)
next
  case (3 es x v va)
  from 3(3) obtain s1 where m: "map_of es x = Some (Dir s1)"
    and l: "lookup s1 ((v # va) @ [name]) = Some n"
    by (auto split: option.splits node.splits)
  from 3(1)[OF m refl _ l] obtain sub where "lookup s1 (v # va) = Some (Dir sub)"
    "map_of sub name = Some n" by auto
  with m show ?case by simp
qed

lemma listdir_lookup: "lookup es (d @ [name]) = Some n \<Longrightarrow> name \<in> set (listdir es d)"
proof (cases "d = []")
  case True
  assume "lookup es (d @ [name]) = Some n"
  with True have "(name, n) \<in> set es" by (simp add: map_of_SomeD)
  with True show ?thesis by (force simp: listdir_def)
next
  case False
  assume "lookup es (d @ [name]) = Some n"
  with False obtain sub where "lookup es d = Some (Dir sub)" "map_of sub name = Some n"
    using lookup_snoc by blast
  moreover from this have "(name, n) \<in> set sub" by (simp add: map_of_SomeD)
  ultimately show ?thesis using False by (force simp: listdir_def)
qed

lemma dir_of_entry:
  "d \<noteq> [] \<Longrightarrow> lookup es (d @ [name]) = Some n \<Longrightarrow> list_all (\<lambda>x. \<not> ishidden x) d \<Longrightarrow>
   d \<in> set (rlistdir es)"
  using lookup_snoc rlistdir_lookup by blast

lemma glob_js_complete:
  assumes "lookup cwd (d @ [name]) = Some n" and "suffix (py ''.js'') name"
    and "\<not> ishidden name" and "list_all (\<lambda>x. \<not> ishidden x) d"
  shows "d @ [name] \<in> set (glob_js cwd)"
proof -
  have "name \<in> set (glob1 cwd d)"
    using assms(1,2,3) by (simp add: glob1_def fnmatch_js_def listdir_lookup)
  have "d \<in> set ([] # rlistdir cwd)"
    using assms(1,4) dir_of_entry[of d cwd name n] by (cases "d = []") simp_all
  then have "map (\<lambda>name. d @ [name]) (glob1 cwd d)
      \<in> set (map (\<lambda>d. map (\<lambda>name. d @ [name]) (glob1 cwd d)) ([] # rlistdir cwd))"
    by (simp only: set_map) (rule imageI)
  moreover have "d @ [name] \<in> set (map (\<lambda>name. d @ [name]) (glob1 cwd d))"
    using \<open>name \<in> set (glob1 cwd d)\<close> by simp
  ultimately show ?thesis
    unfolding glob_js_def set_concat by blast
qed

section \<open>The whole run\<close>

lemma fixed_in_report:
  "length (filter is_fixed (report file oc)) = (if oc = Repaired then 1 else 0)"
  by (cases oc) (simp_all add: report_def is_fixed_def)

lemma count_is_fixed_lines:
  "count (process_files st files) + length (filter is_fixed (stdout st))
   = count st + length (filter is_fixed (stdout (process_files st files)))"
proof (induction files arbitrary: st)
  case Nil
  then show ?case by simp
next
  case (Cons f files)
  have "count (step st f) + length (filter is_fixed (stdout st))
      = count st + length (filter is_fixed (stdout (step st f)))"
    by (simp add: count_step stdout_step fixed_in_report repaired_def)
  with Cons.IH[of "step st f"] show ?case by simp
qed

lemma stdout_grows: "set (stdout st) \<subseteq> set (stdout (process_files st files))"
proof (induction files arbitrary: st)
  case Nil
  then show ?case by simp
next
  case (Cons f files)
  have "set (stdout st) \<subseteq> set (stdout (step st f))" by (simp add: stdout_step)
  with Cons.IH[of "step st f"] show ?case by auto
qed

lemma report_on_console:
  "p \<in> set files \<Longrightarrow>
   set (report p (outcome_of (disk st p))) \<subseteq> set (stdout (process_files st files))"
proof (induction files arbitrary: st)
  case Nil
  then show ?case by simp
next
  case (Cons f files)
  show ?case
  proof (cases "p = f")
    case True
    have "set (report f (outcome_of (disk st f))) \<subseteq> set (stdout (step st f))"
      by (simp add: stdout_step)
    with True stdout_grows[of "step st f" files] show ?thesis by auto
  next
    case False
    with Cons.prems have "p \<in> set files" by simp
    then have "set (report p (outcome_of (disk (step st f) p)))
        \<subseteq> set (stdout (process_files (step st f) files))" by (rule Cons.IH)
    with False show ?thesis by (simp add: disk_step_other)
  qed
qed

lemma console_main:
  "console (main (Accessible cwd)) =
     stdout (process_files \<lparr>disk = lookup cwd, stdout = [], count = 0\<rparr> (glob_js cwd))
     @ [Total_files_fixed (count (process_files \<lparr>disk = lookup cwd, stdout = [], count = 0\<rparr> (glob_js cwd)))]"
  by (simp add: main_def os_chdir_def fix_use_client_directive_def Let_def)

lemma disk_after_main:
  "disk_after (main (Accessible cwd)) =
     disk (process_files \<lparr>disk = lookup cwd, stdout = [], count = 0\<rparr> (glob_js cwd))"
  by (simp add: main_def os_chdir_def fix_use_client_directive_def Let_def)


text \<open>
  C8. On an accessible root the number in the summary line, which is the last line,
  is the number of \<open>Fixed:\<close> lines printed; and it is the number of enumerated files
  that meet the test and can be read and written, so a tree with three such files and
  two others prints three \<open>Fixed:\<close> lines and reports 3.
\<close>

theorem total_equals_fixed_lines:
  "last (console (main (Accessible cwd)))
     = Total_files_fixed (length (filter is_fixed (console (main (Accessible cwd)))))
   \<and> (names_distinct cwd \<longrightarrow>
        length (filter is_fixed (console (main (Accessible cwd))))
        = length (filter (repaired (lookup cwd)) (glob_js cwd)))"
proof -
  let ?st = "\<lparr>disk = lookup cwd, stdout = [], count = 0\<rparr>"
  have c: "count (process_files ?st (glob_js cwd))
      = length (filter is_fixed (stdout (process_files ?st (glob_js cwd))))"
    using count_is_fixed_lines[of ?st "glob_js cwd"] by simp
  have t: "length (filter is_fixed (console (main (Accessible cwd))))
      = count (process_files ?st (glob_js cwd))"
    by (simp add: console_main c is_fixed_def)
  have "last (console (main (Accessible cwd)))
      = Total_files_fixed (count (process_files ?st (glob_js cwd)))"
    by (simp add: console_main)
  moreover have "count (process_files ?st (glob_js cwd))
      = length (filter (repaired (lookup cwd)) (glob_js cwd))" if "names_distinct cwd"
    using distinct_glob_js[OF that] by (simp add: count_process_files_distinct)
  ultimately show ?thesis using t by simp
qed

lemma changed_files:
  assumes "names_distinct cwd"
  shows "{p. disk_after (main (Accessible cwd)) p \<noteq> lookup cwd p}
    = set (filter (\<lambda>p. \<not> first_two_equal (lookup cwd p)) (filter (repaired (lookup cwd)) (glob_js cwd)))"
proof -
  have d: "distinct (glob_js cwd)" using assms by (rule distinct_glob_js)
  show ?thesis
    using rewrite_changes_iff[of "lookup cwd"]
    by (auto simp: disk_after_main disk_process_files_distinct[OF d] split: if_splits)
qed



text \<open>
  C9. One turn of the loop on a file is idempotent under the proviso: when the first
  application raises nothing, and the lines \<open>ls\<close> of the file after it have fewer than
  two members, or the stripped \<open>ls ! 0\<close> does not contain \<open>export const dynamic\<close>, or
  the stripped \<open>ls ! 1\<close> does not contain \<open>"use client"\<close>, a second application
  leaves the state (disk, console and counter) as the first one left it.
\<close>

theorem second_application_changes_nothing:
  assumes "try_block st file = Inr st1"
    and "read_lines (disk st1) file = Inr ls"
    and "length ls < 2 \<or> \<not> contains (strip (ls ! 0)) export_const_dynamic
         \<or> \<not> contains (strip (ls ! 1)) use_client"
  shows "step (step st file) file = step st file"
proof -
  have s: "step st file = st1" using assms(1) by (simp add: step_def)
  have "\<not> needs_swap ls" using assms(3) by (auto simp: needs_swap_def)
  with assms(2) have "outcome_of (disk st1 file) = Skipped"
    by (auto simp: read_lines_def outcome_of_def split: option.splits node.splits data.splits if_splits)
  then have "step st1 file = st1" by (rule step_Skipped)
  with s show ?thesis by simp
qed

section \<open>The example inputs, evaluated\<close>

lemmas text_eval = py_def strip_def isspace_def export_const_dynamic_codes use_client_codes
  needs_swap_def

lemma needs_swap_scenario2: "needs_swap (readlines scenario2)"
  by (simp add: scenario2_def text_eval)

lemma needs_swap_scenario1: "\<not> needs_swap (readlines scenario1)"
  by (simp add: scenario1_def text_eval)

lemma needs_swap_indented: "needs_swap (readlines indented)"
  by (simp add: indented_def text_eval)

lemma needs_swap_one_line: "\<not> needs_swap (readlines one_line)"
  by (simp add: one_line_def text_eval)

lemma needs_swap_twins: "needs_swap (readlines twins)"
  by (simp add: twins_def text_eval)

lemma needs_swap_unterminated: "needs_swap (readlines unterminated)"
  by (simp add: unterminated_def text_eval)

lemma rewrite_scenario2: "writelines (swap_first_two (readlines scenario2)) = scenario1"
  by (simp add: scenario2_def scenario1_def py_def writelines_def)

lemma rewrite_twins: "writelines (swap_first_two (readlines twins)) = twins"
  by (simp add: twins_def py_def writelines_def)

lemma rewrite_unterminated: "writelines (swap_first_two (readlines unterminated)) = merged"
  by (simp add: unterminated_def merged_def py_def writelines_def)

lemma glob_one_page: "glob_js (one_page t) = [page_js]"
  by (simp add: one_page_def page_js_def glob_js_def glob1_def listdir_def fnmatch_js_def
      ishidden_def py_def suffix_def)

lemma glob_locked_and_page: "glob_js locked_and_page = [locked_js, page_js]"
  by (simp add: locked_and_page_def locked_js_def page_js_def glob_js_def glob1_def listdir_def
      fnmatch_js_def ishidden_def py_def suffix_def)

lemma glob_five_files:
  "glob_js five_files =
     [[py ''index.js''], [py ''util.js''], [py ''app'', py ''page.js''],
      [py ''app'', py ''layout.js''], [py ''app'', py ''admin'', py ''page.js'']]"
  by (simp add: five_files_def glob_js_def glob1_def listdir_def fnmatch_js_def
      ishidden_def py_def suffix_def)

lemma glob_dot_named: "glob_js dot_named = []"
  by (simp add: dot_named_def glob_js_def glob1_def listdir_def fnmatch_js_def
      ishidden_def py_def suffix_def)

lemma lookup_five_files:
  "lookup five_files [py ''index.js''] = Some (File True True (Text scenario2))"
  "lookup five_files [py ''util.js''] = Some (File True True (Text one_line))"
  "lookup five_files [py ''app'', py ''page.js''] = Some (File True True (Text scenario2))"
  "lookup five_files [py ''app'', py ''layout.js''] = Some (File True True (Text scenario1))"
  "lookup five_files [py ''app'', py ''admin'', py ''page.js''] = Some (File True True (Text indented))"
  by (simp_all add: five_files_def py_def)

lemma lookup_locked_and_page:
  "lookup locked_and_page locked_js = Some (File False True (Text scenario2))"
  "lookup locked_and_page page_js = Some (File True True (Text scenario2))"
  by (simp_all add: locked_and_page_def locked_js_def page_js_def py_def)

lemma lookup_one_page: "lookup (one_page t) page_js = Some (File True True (Text t))"
  by (simp add: one_page_def page_js_def)

lemma outcome_examples:
  "outcome_of (Some (File True True (Text scenario2))) = Repaired"
  "outcome_of (Some (File True True (Text indented))) = Repaired"
  "outcome_of (Some (File True True (Text twins))) = Repaired"
  "outcome_of (Some (File True True (Text unterminated))) = Repaired"
  "outcome_of (Some (File True True (Text scenario1))) = Skipped"
  "outcome_of (Some (File True True (Text one_line))) = Skipped"
  "outcome_of (Some (File False True (Text scenario2))) = Failed PermissionError"
  by (simp_all add: outcome_of_def needs_swap_scenario2 needs_swap_indented needs_swap_twins
      needs_swap_unterminated needs_swap_scenario1 needs_swap_one_line)

text \<open>
  C1 at a two-line file whose second line has no newline: the script writes the two
  lines in the other order with nothing between them, so the file that had the lines
  \<open>export const dynamic = "force-dynamic"\<close> and \<open>"use client"\<close> is left with the single
  line \<open>"use client"export const dynamic = "force-dynamic"\<close>.
\<close>

theorem unterminated_second_line_is_merged:
  "readlines unterminated = [py ''export const dynamic = \"force-dynamic\"\<newline>'', py ''\"use client\"'']
   \<and> console (main (Accessible (one_page unterminated))) = [Fixed page_js, Total_files_fixed 1]
   \<and> disk_after (main (Accessible (one_page unterminated))) page_js = Some (File True True (Text merged))
   \<and> readlines merged = [merged]"
proof -
  have "readlines unterminated = [py ''export const dynamic = \"force-dynamic\"\<newline>'', py ''\"use client\"'']"
    by (simp add: unterminated_def py_def)
  moreover have "readlines merged = [merged]"
    by (simp add: merged_def py_def)
  moreover have "step \<lparr>disk = lookup (one_page unterminated), stdout = [], count = 0\<rparr> page_js
      = \<lparr>disk = (lookup (one_page unterminated))(page_js \<mapsto> File True True (Text merged)),
         stdout = [Fixed page_js], count = 1\<rparr>"
    by (simp add: step_Repaired lookup_one_page outcome_examples rewrite_unterminated)
  ultimately show ?thesis
    by (simp add: console_main disk_after_main glob_one_page)
qed


lemma names_distinct_examples:
  "names_distinct (one_page t)" "names_distinct locked_and_page" "names_distinct five_files"
  by (simp_all add: one_page_def locked_and_page_def five_files_def py_def)



theorem total_equals_fixed_lines_witness:
  "names_distinct five_files
   \<and> length (filter is_fixed (console (main (Accessible five_files)))) = 3
   \<and> last (console (main (Accessible five_files))) = Total_files_fixed 3"
proof -
  have nd: "names_distinct five_files" by (rule names_distinct_examples)
  have "length (filter (repaired (lookup five_files)) (glob_js five_files)) = 3"
    by (simp add: glob_five_files repaired_def lookup_five_files outcome_examples del: lookup.simps)
  then show ?thesis
    using total_equals_fixed_lines[of five_files] nd by simp
qed



theorem second_application_changes_nothing_witness:
  "try_block \<lparr>disk = lookup (one_page scenario2), stdout = [], count = 0\<rparr> page_js
     = Inr \<lparr>disk = (lookup (one_page scenario2))(page_js \<mapsto> File True True (Text scenario1)),
            stdout = [Fixed page_js], count = 1\<rparr>
   \<and> read_lines ((lookup (one_page scenario2))(page_js \<mapsto> File True True (Text scenario1))) page_js
       = Inr (readlines scenario1)
   \<and> \<not> contains (strip (readlines scenario1 ! 0)) export_const_dynamic
   \<and> step (step \<lparr>disk = lookup (one_page scenario2), stdout = [], count = 0\<rparr> page_js) page_js
       = step \<lparr>disk = lookup (one_page scenario2), stdout = [], count = 0\<rparr> page_js"
proof -
  let ?st = "\<lparr>disk = lookup (one_page scenario2), stdout = [], count = 0\<rparr>"
  let ?st1 = "\<lparr>disk = (lookup (one_page scenario2))(page_js \<mapsto> File True True (Text scenario1)),
            stdout = [Fixed page_js], count = 1\<rparr>"
  have s: "step ?st page_js = ?st1"
    by (simp add: step_Repaired lookup_one_page outcome_examples rewrite_scenario2)
  have nf: "\<And>e. try_block ?st page_js \<noteq> Inl e"
    by (simp add: try_block_Failed lookup_one_page outcome_examples)
  have h1: "try_block ?st page_js = Inr ?st1"
    using s nf by (cases "try_block ?st page_js") (simp_all add: step_def)
  have h2: "read_lines (disk ?st1) page_js = Inr (readlines scenario1)"
    by (simp add: read_lines_def)
  have h3: "\<not> contains (strip (readlines scenario1 ! 0)) export_const_dynamic"
    by (simp add: scenario1_def py_def export_const_dynamic_codes strip_def isspace_def)
  show ?thesis
    using second_application_changes_nothing[OF h1 h2 disjI2[OF disjI1[OF h3]]] h1 h2 h3 by simp
qed

section \<open>Further facts about repaired files\<close>

lemma second_application_can_swap_back:
  "disk (step \<lparr>disk = lookup (one_page both_markers), stdout = [], count = 0\<rparr> page_js) page_js
     = Some (File True True (Text both_markers_swapped))
   \<and> disk (step (step \<lparr>disk = lookup (one_page both_markers), stdout = [], count = 0\<rparr> page_js) page_js) page_js
     = Some (File True True (Text both_markers))"
proof -
  have n1: "needs_swap (readlines both_markers)"
    by (simp add: both_markers_def text_eval)
  have n2: "needs_swap (readlines both_markers_swapped)"
    by (simp add: both_markers_swapped_def text_eval)
  have r1: "writelines (swap_first_two (readlines both_markers)) = both_markers_swapped"
    by (simp add: both_markers_def both_markers_swapped_def py_def writelines_def)
  have r2: "writelines (swap_first_two (readlines both_markers_swapped)) = both_markers"
    by (simp add: both_markers_def both_markers_swapped_def py_def writelines_def)
  show ?thesis
    by (simp add: disk_step_same repaired_def outcome_of_def lookup_one_page n1 n2 r1 r2)
qed

lemma repaired_file_has_lines_swapped:
  assumes "names_distinct cwd" and "file \<in> set (glob_js cwd)"
    and "lookup cwd file = Some (File True True (Text t))"
    and "needs_swap (readlines t)" and "last (readlines t ! 1) = 10"
  shows "\<exists>t'. disk_after (main (Accessible cwd)) file = Some (File True True (Text t'))
    \<and> readlines t' = swap_first_two (readlines t)"
proof -
  have d: "distinct (glob_js cwd)" using assms(1) by (rule distinct_glob_js)
  have "repaired (lookup cwd) file"
    using assms(3,4) by (simp add: repaired_def outcome_of_def)
  then have "disk_after (main (Accessible cwd)) file
      = Some (File True True (Text (writelines (swap_first_two (readlines t)))))"
    using assms(2,3) by (simp add: disk_after_main disk_process_files_distinct[OF d])
  moreover have "readlines (writelines (swap_first_two (readlines t))) = swap_first_two (readlines t)"
    using assms(4,5) by (intro readlines_after_swap) (simp_all add: needs_swap_def)
  ultimately show ?thesis by blast
qed

lemma other_files_untouched:
  assumes "names_distinct cwd" and "file \<notin> set (glob_js cwd) \<or> \<not> repaired (lookup cwd) file"
  shows "disk_after (main (Accessible cwd)) file = lookup cwd file"
proof -
  have d: "distinct (glob_js cwd)" using assms(1) by (rule distinct_glob_js)
  show ?thesis
    using assms(2) by (auto simp: disk_after_main disk_process_files_distinct[OF d])
qed

end
